theory Spec2Isabelle
  imports Complex_Main "HOL-Library.Product_Lexorder"
begin

section \<open>Floating-point values\<close>

text \<open>
  The elements of a numpy \<open>float64\<close> array. A value is a finite number, one of the two
  infinities, or NaN. The special values follow IEEE 754, which numpy applies without
  raising: \<open>0 / 0\<close> is NaN, \<open>x / 0\<close> is an infinity for \<open>x \<noteq> 0\<close>, and NaN is
  absorbing. The range of a double is part of the model: a finite result whose exact
  value has a magnitude of at least \<open>2^1024 - 2^970\<close> (the largest double plus half a
  unit in its last place) is an infinity, and a product or quotient whose exact magnitude
  is at most \<open>2^-1075\<close> (half the smallest subnormal) is zero. Inside that range a
  result is the exact real value: rounding to 53 bits is not part of the model. The two
  signed zeros are one value \<open>Fin 0\<close> (a zero divisor counts as \<open>+0\<close>).
\<close>

datatype f64 = Fin real | PInf | NInf | NaN

definition inf_of :: "bool \<Rightarrow> f64" where
  "inf_of positive = (if positive then PInf else NInf)"

definition overflow_threshold :: real where
  "overflow_threshold = 2 ^ 1024 - 2 ^ 970"

definition underflow_threshold :: real where
  "underflow_threshold = 1 / 2 ^ 1075"

text \<open>The double for an exact result: overflow to an infinity, underflow to zero.\<close>

definition in_range :: "real \<Rightarrow> f64" where
  "in_range r =
     (if overflow_threshold \<le> \<bar>r\<bar> then inf_of (0 < r)
      else if \<bar>r\<bar> \<le> underflow_threshold then Fin 0
      else Fin r)"

text \<open>A sum of doubles overflows but does not underflow: near zero it is exact.\<close>

fun f_add :: "f64 \<Rightarrow> f64 \<Rightarrow> f64" where
  "f_add NaN _ = NaN"
| "f_add _ NaN = NaN"
| "f_add PInf NInf = NaN"
| "f_add NInf PInf = NaN"
| "f_add PInf _ = PInf"
| "f_add _ PInf = PInf"
| "f_add NInf _ = NInf"
| "f_add _ NInf = NInf"
| "f_add (Fin a) (Fin b) =
     (if overflow_threshold \<le> \<bar>a + b\<bar> then inf_of (0 < a + b) else Fin (a + b))"

fun f_mul :: "f64 \<Rightarrow> f64 \<Rightarrow> f64" where
  "f_mul NaN _ = NaN"
| "f_mul _ NaN = NaN"
| "f_mul (Fin a) (Fin b) = in_range (a * b)"
| "f_mul (Fin a) PInf = (if a = 0 then NaN else inf_of (0 < a))"
| "f_mul (Fin a) NInf = (if a = 0 then NaN else inf_of (a < 0))"
| "f_mul PInf (Fin b) = (if b = 0 then NaN else inf_of (0 < b))"
| "f_mul NInf (Fin b) = (if b = 0 then NaN else inf_of (b < 0))"
| "f_mul PInf PInf = PInf"
| "f_mul PInf NInf = NInf"
| "f_mul NInf PInf = NInf"
| "f_mul NInf NInf = PInf"

fun f_div :: "f64 \<Rightarrow> f64 \<Rightarrow> f64" where
  "f_div NaN _ = NaN"
| "f_div _ NaN = NaN"
| "f_div (Fin a) (Fin b) =
     (if b = 0 then (if a = 0 then NaN else inf_of (0 < a)) else in_range (a / b))"
| "f_div (Fin a) PInf = Fin 0"
| "f_div (Fin a) NInf = Fin 0"
| "f_div PInf (Fin b) = inf_of (0 \<le> b)"
| "f_div NInf (Fin b) = inf_of (b < 0)"
| "f_div PInf PInf = NaN"
| "f_div PInf NInf = NaN"
| "f_div NInf PInf = NaN"
| "f_div NInf NInf = NaN"

fun f_sqrt :: "f64 \<Rightarrow> f64" where
  "f_sqrt (Fin a) = (if a < 0 then NaN else Fin (sqrt a))"
| "f_sqrt PInf = PInf"
| "f_sqrt NInf = NaN"
| "f_sqrt NaN = NaN"

text \<open>The comparison \<open>a >= b\<close> of two floats: false as soon as one side is NaN.\<close>

fun f_ge :: "f64 \<Rightarrow> f64 \<Rightarrow> bool" where
  "f_ge NaN _ = False"
| "f_ge _ NaN = False"
| "f_ge PInf _ = True"
| "f_ge _ NInf = True"
| "f_ge NInf _ = False"
| "f_ge _ PInf = False"
| "f_ge (Fin a) (Fin b) = (b \<le> a)"

fun is_fin :: "f64 \<Rightarrow> bool" where
  "is_fin (Fin a) = True"
| "is_fin _ = False"

section \<open>Vectors\<close>

type_synonym vec = "f64 list"

text \<open>
  \<open>x.dot(y)\<close> for two one-dimensional arrays of the same length (every caller below
  checks the lengths, where numpy would raise on a mismatch). The dot product of two
  empty arrays is \<open>0.0\<close>.
\<close>

definition dot :: "vec \<Rightarrow> vec \<Rightarrow> f64" where
  "dot x y = foldr f_add (map2 f_mul x y) (Fin 0)"

text \<open>\<open>numpy.linalg.norm(x)\<close> of a one-dimensional array: \<open>sqrt(x.dot(x))\<close>.\<close>

definition norm_vec :: "vec \<Rightarrow> f64" where
  "norm_vec x = f_sqrt (dot x x)"

text \<open>\<open>x / n\<close> of an array by a scalar: elementwise, no exception on a zero divisor.\<close>

definition vec_div :: "vec \<Rightarrow> f64 \<Rightarrow> vec" where
  "vec_div x n = map (\<lambda>a. f_div a n) x"

definition fin_vec :: "vec \<Rightarrow> bool" where
  "fin_vec x = list_all is_fin x"

section \<open>The vector store (vector\_store.py)\<close>

text \<open>
  \<open>InMemoryVectorStore\<close> has three fields. The metadata dictionaries are opaque to the
  store and are a type parameter. A snapshot file holds what \<open>pickle.dump\<close> wrote for
  the pair of the two lists (\<open>Pickle\<close>), some other pickled object that does not unpack
  into two values (\<open>PickleOther\<close>), or bytes that \<open>pickle.load\<close> rejects
  (\<open>Garbage\<close>). The file system maps a path to its file, if one exists; writing and
  removing a file always succeed in this model.
\<close>

record 'm store =
  embeddings :: "vec list"
  metadata :: "'m list"
  pickle_path :: "string option"

datatype 'm snapshot = Pickle "vec list" "'m list" | PickleOther | Garbage

type_synonym 'm fs = "string \<Rightarrow> 'm snapshot option"

datatype error =
    UnpicklingError  \<comment> \<open>\<open>pickle.load\<close> rejects the bytes\<close>
  | UnpackError      \<comment> \<open>the tuple assignment in \<open>load\<close> does not get two values\<close>
  | ShapeError       \<comment> \<open>numpy's ValueError on ragged or misaligned shapes\<close>
  | IndexError       \<comment> \<open>list index out of range\<close>

text \<open>Truth value of \<open>self.pickle_path\<close>: \<open>None\<close> and the empty string are false.\<close>

fun truthy :: "string option \<Rightarrow> bool" where
  "truthy None = False"
| "truthy (Some p) = (p \<noteq> [])"

definition exists_path :: "'m fs \<Rightarrow> string option \<Rightarrow> bool" where
  "exists_path fs po = (case po of None \<Rightarrow> False | Some p \<Rightarrow> fs p \<noteq> None)"

definition save :: "'m store \<Rightarrow> 'm fs \<Rightarrow> 'm fs" where
  "save s fs =
     (case pickle_path s of
        None \<Rightarrow> fs
      | Some p \<Rightarrow> if p \<noteq> [] then fs(p \<mapsto> Pickle (embeddings s) (metadata s)) else fs)"

definition add :: "'m store \<Rightarrow> 'm fs \<Rightarrow> vec \<Rightarrow> 'm \<Rightarrow> 'm store \<times> 'm fs" where
  "add s fs embedding md =
     (let normalized_embedding = vec_div embedding (norm_vec embedding);
          s' = s\<lparr>embeddings := embeddings s @ [normalized_embedding],
                 metadata := metadata s @ [md]\<rparr>
      in (s', if truthy (pickle_path s') then save s' fs else fs))"

definition load :: "'m store \<Rightarrow> 'm fs \<Rightarrow> error + 'm store" where
  "load s fs =
     (if truthy (pickle_path s) \<and> exists_path fs (pickle_path s) then
        (case fs (the (pickle_path s)) of
           Some (Pickle e m) \<Rightarrow> Inr (s\<lparr>embeddings := e, metadata := m\<rparr>)
         | Some PickleOther \<Rightarrow> Inl UnpackError
         | Some Garbage \<Rightarrow> Inl UnpicklingError
         | None \<Rightarrow> Inr s)
      else Inr s)"

definition clear :: "'m store \<Rightarrow> 'm fs \<Rightarrow> 'm store \<times> 'm fs" where
  "clear s fs =
     (s\<lparr>embeddings := [], metadata := []\<rparr>,
      if truthy (pickle_path s) \<and> exists_path fs (pickle_path s)
      then fs(the (pickle_path s) := None) else fs)"

definition size_store :: "'m store \<Rightarrow> nat" where
  "size_store s = length (embeddings s)"

text \<open>The constructor \<open>InMemoryVectorStore(pickle_path)\<close>.\<close>

definition init_store :: "string option \<Rightarrow> 'm fs \<Rightarrow> error + 'm store" where
  "init_store po fs =
     (let s = \<lparr>embeddings = [], metadata = [], pickle_path = po\<rparr>
      in if truthy po \<and> exists_path fs po then load s fs else Inr s)"

text \<open>
  The position numpy's sort gives a value: \<open>-inf\<close>, then the finite numbers in
  increasing order, then \<open>+inf\<close>, then NaN (numpy sorts NaN to the end).
\<close>

fun rank :: "f64 \<Rightarrow> nat \<times> real" where
  "rank NInf = (0, 0)"
| "rank (Fin a) = (1, a)"
| "rank PInf = (2, 0)"
| "rank NaN = (3, 0)"

text \<open>
  \<open>np.argsort(a)\<close>: the indices of \<open>a\<close> in ascending order of their values. numpy
  leaves the order of equal values open; here they keep their index order.
\<close>

definition argsort :: "f64 list \<Rightarrow> nat list" where
  "argsort a = sort_key (\<lambda>i. rank (a ! i)) [0..<length a]"

text \<open>
  The slice \<open>a[start:]\<close>: a negative start counts from the end, and a start out of
  range is clipped. So \<open>a[-k:]\<close> is the last \<open>k\<close> elements for \<open>0 < k\<close>, all of
  \<open>a\<close> for \<open>k = 0\<close> (since \<open>-0 = 0\<close>), and \<open>a\<close> without its first \<open>-k\<close>
  elements for \<open>k < 0\<close>.
\<close>

definition slice_from :: "'a list \<Rightarrow> int \<Rightarrow> 'a list" where
  "slice_from a start =
     (let n = int (length a);
          i = (if start < 0 then max 0 (start + n) else min start n)
      in drop (nat i) a)"

text \<open>
  The comprehension \<open>[(self.metadata[i], float(similarities[i])) for i in top_indices]\<close>;
  the indices are never negative, and an index past the end of a list raises.
\<close>

fun pairs_at :: "'m list \<Rightarrow> f64 list \<Rightarrow> nat list \<Rightarrow> error + ('m \<times> f64) list" where
  "pairs_at md sims [] = Inr []"
| "pairs_at md sims (i # is) =
     (if i < length md \<and> i < length sims then
        (case pairs_at md sims is of
           Inl e \<Rightarrow> Inl e
         | Inr r \<Rightarrow> Inr ((md ! i, sims ! i) # r))
      else Inl IndexError)"

text \<open>
  \<open>search\<close>. \<open>np.array(self.embeddings)\<close> raises on rows of different lengths and
  \<open>np.dot\<close> raises when the rows do not have the length of the query (numpy 1.24 and
  later); both are \<open>ShapeError\<close>.
\<close>

definition similarities :: "vec list \<Rightarrow> vec \<Rightarrow> f64 list" where
  "similarities embeddings_array q = map (\<lambda>e. dot e q) embeddings_array"

definition search :: "'m store \<Rightarrow> vec \<Rightarrow> int \<Rightarrow> error + ('m \<times> f64) list" where
  "search s query_embedding top_k =
     (if embeddings s = [] then Inr []
      else
        let q = vec_div query_embedding (norm_vec query_embedding) in
        if \<not> list_all (\<lambda>e. length e = length q) (embeddings s) then Inl ShapeError
        else
          let sims = similarities (embeddings s) q;
              top_indices = rev (slice_from (argsort sims) (- top_k))
          in pairs_at (metadata s) sims top_indices)"

text \<open>
  The similarity of entry \<open>i\<close> to a query: the dot product of the stored vector with
  the normalised query, as \<open>search\<close> computes it.
\<close>

definition score :: "'m store \<Rightarrow> vec \<Rightarrow> nat \<Rightarrow> f64" where
  "score s q i = dot (embeddings s ! i) (vec_div q (norm_vec q))"

section \<open>Sequences of store operations\<close>

datatype 'm op = Add vec 'm | Save | Load | Clear

fun step :: "'m op \<Rightarrow> 'm store \<times> 'm fs \<Rightarrow> error + 'm store \<times> 'm fs" where
  "step (Add v m) (s, fs) = Inr (add s fs v m)"
| "step Save (s, fs) = Inr (s, save s fs)"
| "step Load (s, fs) = (case load s fs of Inl e \<Rightarrow> Inl e | Inr s' \<Rightarrow> Inr (s', fs))"
| "step Clear (s, fs) = Inr (clear s fs)"

fun run :: "'m op list \<Rightarrow> 'm store \<times> 'm fs \<Rightarrow> error + 'm store \<times> 'm fs" where
  "run [] w = Inr w"
| "run (x # xs) w = (case step x w of Inl e \<Rightarrow> Inl e | Inr w' \<Rightarrow> run xs w')"

text \<open>
  What a sequence of operations has inserted, in order, since the last \<open>clear\<close>: each
  \<open>add\<close> contributes the normalised vector with its metadata. This is the reference the
  two lists of the store are compared with.
\<close>

fun inserted :: "'m op list \<Rightarrow> (vec \<times> 'm) list \<Rightarrow> (vec \<times> 'm) list" where
  "inserted [] acc = acc"
| "inserted (Add v m # xs) acc = inserted xs (acc @ [(vec_div v (norm_vec v), m)])"
| "inserted (Clear # xs) acc = inserted xs []"
| "inserted (Save # xs) acc = inserted xs acc"
| "inserted (Load # xs) acc = inserted xs acc"

text \<open>
  The invariant of a store and its snapshot: the two lists are equally long, and the
  file at the persistence location, when there is one, holds exactly the two lists.
\<close>

definition in_sync :: "'m store \<times> 'm fs \<Rightarrow> bool" where
  "in_sync w = (case w of (s, fs) \<Rightarrow>
     length (embeddings s) = length (metadata s) \<and>
     (truthy (pickle_path s) \<longrightarrow>
        fs (the (pickle_path s)) = None \<or>
        fs (the (pickle_path s)) = Some (Pickle (embeddings s) (metadata s))))"

text \<open>A vector of finite numbers that are not all zero.\<close>

definition nonzero_vec :: "vec \<Rightarrow> bool" where
  "nonzero_vec x = (fin_vec x \<and> list_ex (\<lambda>a. a \<noteq> Fin 0) x)"

text \<open>
  A vector of moderate size: at most \<open>2^20\<close> components, each of them zero or of a
  magnitude between \<open>2^-250\<close> and \<open>2^250\<close>, and not all zero. For such a vector no
  step of the normalisation leaves the range of a double.
\<close>

fun moderate :: "f64 \<Rightarrow> bool" where
  "moderate (Fin r) = (r = 0 \<or> (1 / 2 ^ 250 \<le> \<bar>r\<bar> \<and> \<bar>r\<bar> \<le> 2 ^ 250))"
| "moderate _ = False"

definition moderate_vec :: "vec \<Rightarrow> bool" where
  "moderate_vec x =
     (length x \<le> 2 ^ 20 \<and> list_all moderate x \<and> list_ex (\<lambda>a. a \<noteq> Fin 0) x)"

text \<open>A finite number of magnitude at most \<open>2^500\<close>.\<close>

fun bounded :: "f64 \<Rightarrow> bool" where
  "bounded (Fin r) = (\<bar>r\<bar> \<le> 2 ^ 500)"
| "bounded _ = False"

text \<open>
  The store of the ranking example: three vectors added to an empty store that has no
  persistence location.
\<close>

definition ranking_store :: "string store" where
  "ranking_store =
     fst (add (fst (add (fst (add \<lparr>embeddings = [], metadata = [], pickle_path = None\<rparr> Map.empty
       [Fin 1, Fin 0, Fin 0] ''A'')) Map.empty
       [Fin 0, Fin 1, Fin 0] ''B'')) Map.empty
       [Fin (9 / 10), Fin (1 / 10), Fin 0] ''C'')"

text \<open>The L2 norm of the third vector of the ranking example, \<open>[0.9, 0.1, 0]\<close>.\<close>

definition ranking_norm :: real where
  "ranking_norm = sqrt (82 / 100)"

text \<open>
  A store that holds the zero vector: \<open>add\<close> of \<open>[0, 0]\<close> and then of
  \<open>[1, 0]\<close> to an empty store.
\<close>

definition nan_store :: "string store" where
  "nan_store =
     fst (add (fst (add \<lparr>embeddings = [], metadata = [], pickle_path = None\<rparr> Map.empty
       [Fin 0, Fin 0] ''Z'')) Map.empty
       [Fin 1, Fin 0] ''A'')"

section \<open>The embedding service (embeddings.py)\<close>






text \<open>
  The HTTP request and the decoding of its answer are outside the service: they are a
  function from the texts sent to the vectors received, or to the exception they raise.
\<close>

datatype api_error = HTTPError | KeyError









section \<open>Arithmetic within the range of doubles\<close>

lemma overflow_threshold_bounds: "2 ^ 1023 \<le> overflow_threshold" "overflow_threshold \<le> 2 ^ 1024"
  by (simp_all add: overflow_threshold_def)

lemma underflow_threshold_bounds: "0 < underflow_threshold" "underflow_threshold < 1 / 2 ^ 1074"
  by (simp_all add: underflow_threshold_def)

lemma in_range_zero [simp]: "in_range 0 = Fin 0"
  using overflow_threshold_bounds(1) underflow_threshold_bounds(1)
  by (simp add: in_range_def)

lemma in_range_exact:
  "underflow_threshold < \<bar>r\<bar> \<Longrightarrow> \<bar>r\<bar> < overflow_threshold \<Longrightarrow> in_range r = Fin r"
  by (simp add: in_range_def)

lemma in_range_moderate: "1 / 1000 \<le> \<bar>r\<bar> \<Longrightarrow> \<bar>r\<bar> \<le> 1000 \<Longrightarrow> in_range r = Fin r"
proof (rule in_range_exact)
  assume "1 / 1000 \<le> \<bar>r\<bar>"
  moreover have "(1 / 2 ^ 1074 :: real) < 1 / 1000" by simp
  ultimately show "underflow_threshold < \<bar>r\<bar>"
    using underflow_threshold_bounds(2) by linarith
next
  assume "\<bar>r\<bar> \<le> 1000"
  moreover have "(1000 :: real) < 2 ^ 1023" by simp
  ultimately show "\<bar>r\<bar> < overflow_threshold"
    using overflow_threshold_bounds(1) by linarith
qed

lemma f_add_Fin:
  "f_add (Fin a) (Fin b) =
     (if overflow_threshold \<le> \<bar>a + b\<bar> then inf_of (0 < a + b) else Fin (a + b))"
  by simp

declare f_add_Fin [simp del]

lemma f_add_exact: "\<bar>a + b\<bar> < overflow_threshold \<Longrightarrow> f_add (Fin a) (Fin b) = Fin (a + b)"
  by (simp add: f_add_Fin)

lemma f_add_moderate: "\<bar>a + b\<bar> \<le> 1000 \<Longrightarrow> f_add (Fin a) (Fin b) = Fin (a + b)"
proof (rule f_add_exact)
  assume "\<bar>a + b\<bar> \<le> 1000"
  moreover have "(1000 :: real) < 2 ^ 1023" by simp
  ultimately show "\<bar>a + b\<bar> < overflow_threshold"
    using overflow_threshold_bounds(1) by linarith
qed

lemma dot_Nil [simp]: "dot [] [] = Fin 0"
  by (simp add: dot_def)

lemma dot_Cons [simp]: "dot (a # x) (b # y) = f_add (f_mul a b) (dot x y)"
  by (simp add: dot_def)

lemma f_add_zero [simp]: "f_add (Fin 0) (Fin 0) = Fin 0"
  by (simp add: f_add_moderate)

section \<open>Normalisation of a zero vector\<close>

lemma dot_zeros: "\<forall>a \<in> set x. a = Fin 0 \<Longrightarrow> dot x x = Fin 0"
  by (induction x) simp_all

lemma norm_vec_zeros: "\<forall>a \<in> set x. a = Fin 0 \<Longrightarrow> norm_vec x = Fin 0"
  by (simp add: norm_vec_def dot_zeros)

lemma vec_div_zero: "\<forall>a \<in> set x. a = Fin 0 \<Longrightarrow> vec_div x (Fin 0) = replicate (length x) NaN"
  by (induction x) (simp_all add: vec_div_def)

text \<open>
  Claim C1, as the code has it. \<open>add\<close> has no guard on the norm and never fails. For
  every vector whose L2 norm is zero, that is every vector whose components are all zero,
  which includes the vector of length zero, it appends one entry to each list: the
  metadata as given, and an embedding of the same length as the input whose components
  are all NaN (none for the empty vector).
\<close>

theorem add_zero_norm_stores_nan:
  "\<forall>a \<in> set v. a = Fin 0 \<Longrightarrow>
     embeddings (fst (add s fs v m)) = embeddings s @ [replicate (length v) NaN] \<and>
     metadata (fst (add s fs v m)) = metadata s @ [m]"
  using vec_div_zero [of v] norm_vec_zeros [of v]
  by (simp add: add_def Let_def)

theorem add_zero_norm_stores_nan_witness:
  "list_all (\<lambda>a. a = Fin 0) [Fin 0, Fin 0, Fin 0] \<and>
   embeddings (fst (add \<lparr>embeddings = [], metadata = [], pickle_path = None\<rparr> Map.empty
      [Fin 0, Fin 0, Fin 0] ''meta'')) = [[NaN, NaN, NaN]]"
  using add_zero_norm_stores_nan [of "[Fin 0, Fin 0, Fin 0]" "\<lparr>embeddings = [], metadata = [], pickle_path = None\<rparr>" Map.empty "''meta''"]
  by simp

text \<open>
  The claim itself fails at \<open>[0, 0, 0]\<close>: \<open>add\<close> on a fresh store without a
  persistence location returns normally, and the store then holds three NaNs.
\<close>

theorem add_zero_vector_counterexample:
  "add \<lparr>embeddings = [], metadata = [], pickle_path = None\<rparr> Map.empty
      [Fin 0, Fin 0, Fin 0] ''meta''
   = (\<lparr>embeddings = [[NaN, NaN, NaN]], metadata = [''meta''], pickle_path = None\<rparr>, Map.empty)"
  by (simp add: add_def norm_vec_def vec_div_def)

section \<open>Normalisation of a vector of moderate size\<close>

lemma dot_exact:
  assumes "length as = length bs"
    and "\<forall>(a, b) \<in> set (zip as bs). a * b = 0 \<or> underflow_threshold < \<bar>a * b\<bar>"
    and "(\<Sum>(a, b) \<leftarrow> zip as bs. \<bar>a * b\<bar>) < overflow_threshold"
  shows "dot (map Fin as) (map Fin bs) = Fin (\<Sum>(a, b) \<leftarrow> zip as bs. a * b)"
  using assms
proof (induction as bs rule: list_induct2)
  case Nil
  then show ?case by simp
next
  case (Cons a as b bs)
  let ?t = "\<Sum>(a, b) \<leftarrow> zip as bs. \<bar>a * b\<bar>"
  let ?s = "\<Sum>(a, b) \<leftarrow> zip as bs. a * b"
  have t0: "0 \<le> ?t" by (rule sum_list_nonneg) auto
  have st: "\<bar>?s\<bar> \<le> ?t"
    using sum_list_abs [of "map (\<lambda>(a, b). a * b) (zip as bs)"]
    by (simp add: o_def split_def)
  from Cons.prems have tot: "\<bar>a * b\<bar> + ?t < overflow_threshold" by simp
  from Cons.prems t0 tot have ih: "dot (map Fin as) (map Fin bs) = Fin ?s"
    by (intro Cons.IH) auto
  from Cons.prems have "a * b = 0 \<or> underflow_threshold < \<bar>a * b\<bar>" by simp
  moreover from tot t0 have "\<bar>a * b\<bar> < overflow_threshold" by linarith
  ultimately have m: "in_range (a * b) = Fin (a * b)"
    by (auto simp: in_range_exact)
  have "\<bar>a * b + ?s\<bar> < overflow_threshold" using st tot by linarith
  then show ?case by (simp add: ih m f_add_exact)
qed

lemma dot_bounded:
  assumes "length as = length bs"
    and "(\<Sum>(a, b) \<leftarrow> zip as bs. \<bar>a * b\<bar>) < overflow_threshold"
  shows "\<exists>t. dot (map Fin as) (map Fin bs) = Fin t \<and> \<bar>t\<bar> \<le> (\<Sum>(a, b) \<leftarrow> zip as bs. \<bar>a * b\<bar>)"
  using assms
proof (induction as bs rule: list_induct2)
  case Nil
  then show ?case by simp
next
  case (Cons a as b bs)
  let ?t = "\<Sum>(a, b) \<leftarrow> zip as bs. \<bar>a * b\<bar>"
  have t0: "0 \<le> ?t" by (rule sum_list_nonneg) auto
  from Cons.prems have tot: "\<bar>a * b\<bar> + ?t < overflow_threshold" by simp
  then have "?t < overflow_threshold" using abs_ge_zero [of "a * b"] by linarith
  from Cons.IH [OF this] obtain t where t: "dot (map Fin as) (map Fin bs) = Fin t" "\<bar>t\<bar> \<le> ?t"
    by blast
  from tot t0 have ab: "\<bar>a * b\<bar> < overflow_threshold" by linarith
  obtain p where p: "in_range (a * b) = Fin p" "\<bar>p\<bar> \<le> \<bar>a * b\<bar>"
    using ab by (cases "\<bar>a * b\<bar> \<le> underflow_threshold") (auto simp: in_range_def)
  have "\<bar>p + t\<bar> < overflow_threshold" using p t tot by linarith
  then have "dot (map Fin (a # as)) (map Fin (b # bs)) = Fin (p + t)"
    by (simp add: t p f_add_exact)
  moreover have "\<bar>p + t\<bar> \<le> \<bar>a * b\<bar> + ?t" using p t by linarith
  ultimately show ?case by simp
qed

lemma sum_list_bounded:
  "\<forall>x \<in> set xs. f x \<le> (c :: real) \<Longrightarrow> sum_list (map f xs) \<le> real (length xs) * c"
  by (induction xs) (simp_all add: algebra_simps)

lemma sum_squares_nonneg: "0 \<le> (\<Sum>r \<leftarrow> rs. r * r :: real)"
  by (induction rs) simp_all

lemma square_le_sum_squares: "r \<in> set rs \<Longrightarrow> r * r \<le> (\<Sum>r \<leftarrow> rs. r * r :: real)"
proof (induction rs)
  case Nil
  then show ?case by simp
next
  case (Cons a rs)
  show ?case
  proof (cases "r = a")
    case True
    with sum_squares_nonneg [of rs] show ?thesis by simp
  next
    case False
    with Cons have "r * r \<le> (\<Sum>r \<leftarrow> rs. r * r)" by simp
    with zero_le_square [of a] have "r * r \<le> a * a + (\<Sum>r \<leftarrow> rs. r * r)" by linarith
    then show ?thesis by simp
  qed
qed

lemma sum_squares_scaled:
  "(\<Sum>r \<leftarrow> map (\<lambda>r. r / n) rs. r * r) = (\<Sum>r \<leftarrow> rs. r * r) / (n * n :: real)"
  by (induction rs) (simp_all add: add_divide_distrib)

lemma dot_self_exact:
  assumes "\<forall>r \<in> set rs. r = 0 \<or> underflow_threshold < r * r"
    and "(\<Sum>r \<leftarrow> rs. r * r) < overflow_threshold"
  shows "dot (map Fin rs) (map Fin rs) = Fin (\<Sum>r \<leftarrow> rs. r * r)"
proof -
  have z: "zip rs rs = map (\<lambda>r. (r, r)) rs" by (rule zip_same_conv_map)
  have "dot (map Fin rs) (map Fin rs) = Fin (\<Sum>(a, b) \<leftarrow> zip rs rs. a * b)"
  proof (rule dot_exact)
    show "length rs = length rs" ..
    show "\<forall>(a, b) \<in> set (zip rs rs). a * b = 0 \<or> underflow_threshold < \<bar>a * b\<bar>"
      using assms(1) by (auto simp: z)
    show "(\<Sum>(a, b) \<leftarrow> zip rs rs. \<bar>a * b\<bar>) < overflow_threshold"
      using assms(2) by (simp add: z o_def)
  qed
  then show ?thesis by (simp add: z o_def)
qed

lemma moderate_vec_reals:
  assumes "moderate_vec v"
  obtains rs where "v = map Fin rs" "length rs \<le> 2 ^ 20"
    "\<forall>r \<in> set rs. r = 0 \<or> (1 / 2 ^ 250 \<le> \<bar>r\<bar> \<and> \<bar>r\<bar> \<le> 2 ^ 250)"
    "\<exists>r \<in> set rs. r \<noteq> 0"
proof -
  have "list_all moderate v \<Longrightarrow>
      \<exists>rs. v = map Fin rs \<and> (\<forall>r \<in> set rs. r = 0 \<or> (1 / 2 ^ 250 \<le> \<bar>r\<bar> \<and> \<bar>r\<bar> \<le> 2 ^ 250))"
  proof (induction v)
    case Nil
    then show ?case by simp
  next
    case (Cons a v)
    then obtain rs where rs: "v = map Fin rs"
      "\<forall>r \<in> set rs. r = 0 \<or> (1 / 2 ^ 250 \<le> \<bar>r\<bar> \<and> \<bar>r\<bar> \<le> 2 ^ 250)" by auto
    from Cons.prems obtain r where r: "a = Fin r" "r = 0 \<or> (1 / 2 ^ 250 \<le> \<bar>r\<bar> \<and> \<bar>r\<bar> \<le> 2 ^ 250)"
      by (cases a) auto
    from rs r have "a # v = map Fin (r # rs) \<and>
        (\<forall>r \<in> set (r # rs). r = 0 \<or> (1 / 2 ^ 250 \<le> \<bar>r\<bar> \<and> \<bar>r\<bar> \<le> 2 ^ 250))" by simp
    then show ?case by (rule exI)
  qed
  with assms obtain rs where rs: "v = map Fin rs"
    "\<forall>r \<in> set rs. r = 0 \<or> (1 / 2 ^ 250 \<le> \<bar>r\<bar> \<and> \<bar>r\<bar> \<le> 2 ^ 250)"
    by (auto simp: moderate_vec_def)
  from assms rs(1) have "length rs \<le> 2 ^ 20" "\<exists>r \<in> set rs. r \<noteq> 0"
    by (auto simp: moderate_vec_def list_ex_iff)
  with rs that show thesis by blast
qed

lemma square_ge:
  fixes r l :: real
  assumes "0 \<le> l" "l \<le> \<bar>r\<bar>"
  shows "l * l \<le> r * r"
proof -
  from assms have "l * l \<le> \<bar>r\<bar> * \<bar>r\<bar>" by (intro mult_mono) auto
  then show ?thesis by simp
qed

lemma square_le:
  fixes r u :: real
  assumes "\<bar>r\<bar> \<le> u"
  shows "r * r \<le> u * u"
proof -
  from assms have "\<bar>r\<bar> * \<bar>r\<bar> \<le> u * u" by (intro mult_mono) auto
  then show ?thesis by simp
qed

lemma normalize_moderate:
  assumes "moderate_vec v"
  obtains rs n where "v = map Fin rs" "0 < n" "norm_vec v = Fin n"
    "vec_div v (norm_vec v) = map Fin (map (\<lambda>r. r / n) rs)"
    "n * n = (\<Sum>r \<leftarrow> rs. r * r)"
    "\<forall>r \<in> set rs. \<bar>r / n\<bar> \<le> 1"
    "\<forall>r \<in> set rs. r = 0 \<or> 1 / 2 ^ 510 \<le> \<bar>r / n\<bar>"
proof -
  from assms obtain rs where v: "v = map Fin rs" and len: "length rs \<le> 2 ^ 20"
    and b: "\<forall>r \<in> set rs. r = 0 \<or> (1 / 2 ^ 250 \<le> \<bar>r\<bar> \<and> \<bar>r\<bar> \<le> 2 ^ 250)"
    and nz: "\<exists>r \<in> set rs. r \<noteq> 0"
    by (rule moderate_vec_reals)
  let ?S = "\<Sum>r \<leftarrow> rs. r * r"
  have lo: "r = 0 \<or> 1 / 2 ^ 500 \<le> r * r" if "r \<in> set rs" for r
  proof (cases "r = 0")
    case False
    with b that have "1 / 2 ^ 250 \<le> \<bar>r\<bar>" by blast
    then have "(1 / 2 ^ 250) * (1 / 2 ^ 250) \<le> r * r" by (intro square_ge) auto
    then show ?thesis by simp
  qed simp
  have hi: "r * r \<le> 2 ^ 500" if "r \<in> set rs" for r
  proof -
    from b that have "\<bar>r\<bar> \<le> 2 ^ 250" by auto
    then have "r * r \<le> 2 ^ 250 * 2 ^ 250" by (rule square_le)
    then show ?thesis by simp
  qed
  have u: "\<forall>r \<in> set rs. r = 0 \<or> underflow_threshold < r * r"
  proof
    fix r assume "r \<in> set rs"
    from lo [OF this] show "r = 0 \<or> underflow_threshold < r * r"
    proof
      assume "1 / 2 ^ 500 \<le> r * r"
      moreover have "(1 / 2 ^ 1074 :: real) < 1 / 2 ^ 500" by simp
      ultimately have "underflow_threshold < r * r"
        using underflow_threshold_bounds(2) by linarith
      then show ?thesis ..
    qed simp
  qed
  have "?S \<le> real (length rs) * 2 ^ 500"
    using hi by (intro sum_list_bounded) auto
  also have "\<dots> \<le> 2 ^ 20 * 2 ^ 500"
  proof (rule mult_right_mono)
    from len have "real (length rs) \<le> real (2 ^ 20)" by (simp only: of_nat_le_iff)
    then show "real (length rs) \<le> 2 ^ 20" by simp
  qed simp
  finally have S_hi: "?S \<le> 2 ^ 520" by simp
  moreover have "(2 ^ 520 :: real) < 2 ^ 1023" by simp
  ultimately have S_ovf: "?S < overflow_threshold"
    using overflow_threshold_bounds(1) by linarith
  from nz obtain r0 where r0: "r0 \<in> set rs" "r0 \<noteq> 0" by blast
  with lo [of r0] have "1 / 2 ^ 500 \<le> r0 * r0" by simp
  with square_le_sum_squares [OF r0(1)] have S_lo: "1 / 2 ^ 500 \<le> ?S" by linarith
  then have S_pos: "0 < ?S"
    by (rule less_le_trans [rotated]) simp
  define n where "n = sqrt ?S"
  have n_pos: "0 < n" using S_pos by (simp add: n_def)
  have nn: "n * n = ?S" using S_pos by (simp add: n_def)
  have n_hi: "n \<le> 2 ^ 260"
    unfolding n_def using S_hi by (intro real_le_lsqrt) simp_all
  have d: "dot v v = Fin ?S"
    unfolding v using u S_ovf by (rule dot_self_exact)
  then have norm: "norm_vec v = Fin n"
    using S_pos by (simp add: norm_vec_def n_def)
  have q_hi: "\<bar>r / n\<bar> \<le> 1" if "r \<in> set rs" for r
  proof -
    from square_le_sum_squares [OF that] have "\<bar>r\<bar>\<^sup>2 \<le> ?S" by (simp add: power2_eq_square)
    then have "\<bar>r\<bar> \<le> n" unfolding n_def by (rule real_le_rsqrt)
    with n_pos show ?thesis by simp
  qed
  have q_lo: "r = 0 \<or> 1 / 2 ^ 510 \<le> \<bar>r / n\<bar>" if "r \<in> set rs" for r
  proof (cases "r = 0")
    case False
    with b that have "1 / 2 ^ 250 \<le> \<bar>r\<bar>" by blast
    then have "(1 / 2 ^ 250) / 2 ^ 260 \<le> \<bar>r\<bar> / n"
      using n_pos n_hi by (intro frac_le) auto
    then show ?thesis using n_pos by simp
  qed simp
  have q: "in_range (r / n) = Fin (r / n)" if "r \<in> set rs" for r
    using q_lo [OF that]
  proof
    assume "1 / 2 ^ 510 \<le> \<bar>r / n\<bar>"
    moreover have "(1 / 2 ^ 1074 :: real) < 1 / 2 ^ 510" by simp
    ultimately have "underflow_threshold < \<bar>r / n\<bar>"
      using underflow_threshold_bounds(2) by linarith
    moreover have "(1 :: real) < 2 ^ 1023" by simp
    with q_hi [OF that] have "\<bar>r / n\<bar> < overflow_threshold"
      using overflow_threshold_bounds(1) by linarith
    ultimately show ?thesis by (rule in_range_exact)
  qed simp
  have "vec_div v (Fin n) = map Fin (map (\<lambda>r. r / n) rs)"
    using n_pos q by (simp add: v vec_div_def)
  then have div: "vec_div v (norm_vec v) = map Fin (map (\<lambda>r. r / n) rs)"
    by (simp add: norm)
  from v n_pos norm div nn q_hi q_lo that show thesis by blast
qed

lemma normalized_unit_norm:
  assumes "moderate_vec v"
  shows "norm_vec (vec_div v (norm_vec v)) = Fin 1"
proof -
  from assms obtain rs n where n: "0 < n"
    and div: "vec_div v (norm_vec v) = map Fin (map (\<lambda>r. r / n) rs)"
    and nn: "n * n = (\<Sum>r \<leftarrow> rs. r * r)"
    and q_lo: "\<forall>r \<in> set rs. r = 0 \<or> 1 / 2 ^ 510 \<le> \<bar>r / n\<bar>"
    by (rule normalize_moderate)
  let ?qs = "map (\<lambda>r. r / n) rs"
  have "(\<Sum>q \<leftarrow> ?qs. q * q) = (\<Sum>r \<leftarrow> rs. r * r) / (n * n)"
    by (rule sum_squares_scaled)
  also have "\<dots> = n * n / (n * n)" by (simp only: nn)
  also have "\<dots> = 1" using n by simp
  finally have s: "(\<Sum>q \<leftarrow> ?qs. q * q) = 1" .
  have u: "\<forall>q \<in> set ?qs. q = 0 \<or> underflow_threshold < q * q"
  proof
    fix q assume "q \<in> set ?qs"
    then obtain r where r: "r \<in> set rs" "q = r / n" by auto
    with q_lo have "r = 0 \<or> 1 / 2 ^ 510 \<le> \<bar>q\<bar>" by blast
    then show "q = 0 \<or> underflow_threshold < q * q"
    proof
      assume "1 / 2 ^ 510 \<le> \<bar>q\<bar>"
      then have "(1 / 2 ^ 510) * (1 / 2 ^ 510) \<le> q * q" by (intro square_ge) auto
      moreover have "(1 / 2 ^ 1074 :: real) < (1 / 2 ^ 510) * (1 / 2 ^ 510)" by simp
      ultimately have "underflow_threshold < q * q"
        using underflow_threshold_bounds(2) by linarith
      then show ?thesis ..
    qed (simp add: r)
  qed
  have "(1 :: real) < 2 ^ 1023" by simp
  then have "(\<Sum>q \<leftarrow> ?qs. q * q) < overflow_threshold"
    unfolding s using overflow_threshold_bounds(1) by linarith
  with u have "dot (map Fin ?qs) (map Fin ?qs) = Fin (\<Sum>q \<leftarrow> ?qs. q * q)"
    by (rule dot_self_exact)
  then show ?thesis
    unfolding div s by (simp add: norm_vec_def)
qed

lemma normalized_bounded:
  assumes "moderate_vec v"
  shows "list_all bounded (vec_div v (norm_vec v))"
proof -
  from assms obtain rs n where
    div: "vec_div v (norm_vec v) = map Fin (map (\<lambda>r. r / n) rs)"
    and q1: "\<forall>r \<in> set rs. \<bar>r / n\<bar> \<le> 1"
    by (rule normalize_moderate)
  have "(1 :: real) \<le> 2 ^ 500" by simp
  with q1 have "\<forall>r \<in> set rs. \<bar>r / n\<bar> \<le> 2 ^ 500" by fastforce
  then show ?thesis
    unfolding div by (simp add: list_all_iff)
qed

section \<open>Persistence\<close>

lemma add_fields:
  "embeddings (fst (add s fs v m)) = embeddings s @ [vec_div v (norm_vec v)]"
  "metadata (fst (add s fs v m)) = metadata s @ [m]"
  "pickle_path (fst (add s fs v m)) = pickle_path s"
  by (simp_all add: add_def Let_def)

lemma add_snapshot:
  "truthy (pickle_path s) \<Longrightarrow>
     snd (add s fs v m) (the (pickle_path s)) =
       Some (Pickle (embeddings s @ [vec_div v (norm_vec v)]) (metadata s @ [m]))"
  by (cases "pickle_path s") (simp_all add: add_def Let_def save_def)

lemma save_snapshot:
  "truthy (pickle_path s) \<Longrightarrow>
     save s fs (the (pickle_path s)) = Some (Pickle (embeddings s) (metadata s))"
  by (cases "pickle_path s") (simp_all add: save_def)




text \<open>
  Claim C6, as the code has it. When a file exists at the location, the constructor
  fails with the exception of \<open>pickle.load\<close> if the bytes are not a pickle, and with
  the exception of the tuple assignment if the pickled object does not unpack into two
  values; neither is swallowed. A pickled pair of lists is taken as it is: nothing
  compares the two lengths.
\<close>

theorem init_store_existing_file:
  assumes "truthy (Some p)" and "fs p = Some f"
  shows "(case f of
            Pickle e m \<Rightarrow> init_store (Some p) fs = Inr \<lparr>embeddings = e, metadata = m, pickle_path = Some p\<rparr>
          | PickleOther \<Rightarrow> init_store (Some p) fs = Inl UnpackError
          | Garbage \<Rightarrow> init_store (Some p) fs = Inl UnpicklingError)"
  using assms by (cases f) (simp_all add: init_store_def load_def exists_path_def)

theorem init_store_existing_file_witness:
  "truthy (Some ''idx.pkl'') \<and> (Map.empty(''idx.pkl'' \<mapsto> Garbage :: string snapshot)) ''idx.pkl'' = Some Garbage
   \<and> init_store (Some ''idx.pkl'') (Map.empty(''idx.pkl'' \<mapsto> Garbage :: string snapshot)) = Inl UnpicklingError"
  using init_store_existing_file [of "''idx.pkl''" "Map.empty(''idx.pkl'' \<mapsto> Garbage :: string snapshot)" Garbage]
  by simp

text \<open>
  The claim itself fails on a snapshot that holds one embedding and no metadata: the
  constructor returns a store with lists of different lengths and no error.
\<close>

theorem init_store_unequal_counterexample:
  "init_store (Some ''idx.pkl'') (Map.empty(''idx.pkl'' \<mapsto> Pickle [[Fin 1]] ([] :: string list)))
     = Inr \<lparr>embeddings = [[Fin 1]], metadata = [], pickle_path = Some ''idx.pkl''\<rparr>"
  by (simp add: init_store_def load_def exists_path_def)

section \<open>The parallel lists\<close>

lemma step_in_sync:
  assumes "in_sync (s, fs)"
  shows "\<exists>s' fs'. step x (s, fs) = Inr (s', fs') \<and> in_sync (s', fs') \<and>
           pickle_path s' = pickle_path s \<and>
           zip (embeddings s') (metadata s') = inserted [x] (zip (embeddings s) (metadata s))"
proof (cases x)
  case (Add v m)
  obtain s' fs' where a: "add s fs v m = (s', fs')" by (cases "add s fs v m")
  have f: "embeddings s' = embeddings s @ [vec_div v (norm_vec v)]"
    "metadata s' = metadata s @ [m]" "pickle_path s' = pickle_path s"
    using add_fields [of s fs v m] a by simp_all
  have "truthy (pickle_path s) \<Longrightarrow> fs' (the (pickle_path s)) = Some (Pickle (embeddings s') (metadata s'))"
    using add_snapshot [of s fs v m] a f by simp
  with assms f have "in_sync (s', fs')" by (simp add: in_sync_def)
  with assms f a Add show ?thesis by (simp add: in_sync_def)
next
  case Save
  with assms show ?thesis by (auto simp: in_sync_def save_snapshot)
next
  case Load
  with assms show ?thesis
    by (cases "pickle_path s") (auto simp: in_sync_def load_def exists_path_def)
next
  case Clear
  with assms show ?thesis
    by (cases "pickle_path s") (auto simp: in_sync_def clear_def exists_path_def)
qed

lemma inserted_append_one: "inserted (x # xs) acc = inserted xs (inserted [x] acc)"
  by (cases x) simp_all

lemma run_in_sync:
  "in_sync (s, fs) \<Longrightarrow>
     \<exists>s' fs'. run ops (s, fs) = Inr (s', fs') \<and> in_sync (s', fs') \<and>
        zip (embeddings s') (metadata s') = inserted ops (zip (embeddings s) (metadata s))"
proof (induction ops arbitrary: s fs)
  case Nil
  then show ?case by simp
next
  case (Cons x ops)
  from step_in_sync [OF Cons.prems, of x] obtain s1 fs1 where
    st: "step x (s, fs) = Inr (s1, fs1)" and sy: "in_sync (s1, fs1)" and
    z: "zip (embeddings s1) (metadata s1) = inserted [x] (zip (embeddings s) (metadata s))"
    by blast
  from Cons.IH [OF sy] obtain s' fs' where
    "run ops (s1, fs1) = Inr (s', fs')" "in_sync (s', fs')"
    "zip (embeddings s') (metadata s') = inserted ops (zip (embeddings s1) (metadata s1))"
    by blast
  with st z show ?case
    by (simp add: inserted_append_one [of x ops])
qed

lemma init_store_empty_in_sync:
  assumes "init_store po fs = Inr s" "embeddings s = []" "metadata s = []"
  shows "in_sync (s, fs)"
proof (cases "truthy po \<and> exists_path fs po")
  case False
  with assms show ?thesis
    by (cases po) (auto simp: init_store_def in_sync_def exists_path_def)
next
  case True
  then obtain p where po: "po = Some p" "p \<noteq> []" by (cases po) auto
  with True obtain f where f: "fs p = Some f" by (auto simp: exists_path_def)
  with assms po show ?thesis
    by (cases f) (auto simp: init_store_def in_sync_def exists_path_def load_def)
qed

text \<open>
  Claim C4. Start from an empty store as the constructor returns it (no location, no
  file at the location, or a snapshot of two empty lists). Every sequence of \<open>add\<close>,
  \<open>save\<close>, \<open>load\<close> and \<open>clear\<close> runs without an error, and in the state it
  reaches the two lists are equally long and, position by position, are the pairs of
  normalised vector and metadata inserted since the last \<open>clear\<close>, in insertion order.
\<close>

theorem parallel_sequences:
  assumes "init_store po fs = Inr s" and "embeddings s = []" and "metadata s = []"
  shows "\<exists>s' fs'. run ops (s, fs) = Inr (s', fs') \<and>
           length (embeddings s') = length (metadata s') \<and>
           zip (embeddings s') (metadata s') = inserted ops []"
  using run_in_sync [OF init_store_empty_in_sync [OF assms], of ops] assms
  by (auto simp: in_sync_def)

theorem parallel_sequences_witness:
  "init_store (Some ''idx.pkl'') Map.empty =
      Inr \<lparr>embeddings = [], metadata = ([] :: string list), pickle_path = Some ''idx.pkl''\<rparr> \<and>
   (\<exists>s' fs'.
      run [Add [Fin 1, Fin 0] ''a'', Save, Clear, Load, Add [Fin 0, Fin 1] ''b'', Load]
          (\<lparr>embeddings = [], metadata = [], pickle_path = Some ''idx.pkl''\<rparr>, Map.empty) = Inr (s', fs') \<and>
      length (embeddings s') = length (metadata s') \<and>
      zip (embeddings s') (metadata s') = [([Fin 0, Fin 1], ''b'')])"
  using parallel_sequences [of "Some ''idx.pkl''" Map.empty
      "\<lparr>embeddings = [], metadata = ([] :: string list), pickle_path = Some ''idx.pkl''\<rparr>"
      "[Add [Fin 1, Fin 0] ''a'', Save, Clear, Load, Add [Fin 0, Fin 1] ''b'', Load]"]
  by (simp add: init_store_def exists_path_def norm_vec_def vec_div_def in_range_moderate f_add_moderate)

section \<open>Unit norm of stored embeddings\<close>

lemma run_adds:
  "\<exists>s' fs'. run (map (\<lambda>(v, m). Add v m) vms) (s, fs) = Inr (s', fs') \<and>
      embeddings s' = embeddings s @ map (\<lambda>(v, m). vec_div v (norm_vec v)) vms \<and>
      metadata s' = metadata s @ map snd vms"
proof (induction vms arbitrary: s fs)
  case Nil
  then show ?case by simp
next
  case (Cons vm vms)
  obtain v m where vm: "vm = (v, m)" by (cases vm)
  obtain s1 fs1 where a: "add s fs v m = (s1, fs1)" by (cases "add s fs v m")
  have f: "embeddings s1 = embeddings s @ [vec_div v (norm_vec v)]"
    "metadata s1 = metadata s @ [m]"
    using add_fields [of s fs v m] a by simp_all
  from Cons.IH [of s1 fs1] f a vm show ?case by auto
qed

text \<open>
  Claim C5, as the code has it. From an empty store, adding any sequence of vectors of
  moderate size (at most \<open>2^20\<close> components, each zero or of a magnitude between
  \<open>2^-250\<close> and \<open>2^250\<close>, not all zero) succeeds, each stored embedding is the
  added vector divided by its L2 norm, and every stored embedding has L2 norm 1 (exactly,
  since rounding is not part of this model).
\<close>

theorem stored_unit_norm:
  assumes "\<forall>vm \<in> set vms. moderate_vec (fst vm)"
  shows "\<exists>s' fs'.
           run (map (\<lambda>(v, m). Add v m) vms)
               (\<lparr>embeddings = [], metadata = [], pickle_path = po\<rparr>, fs) = Inr (s', fs') \<and>
           embeddings s' = map (\<lambda>(v, m). vec_div v (norm_vec v)) vms \<and>
           (\<forall>e \<in> set (embeddings s'). norm_vec e = Fin 1)"
proof -
  from run_adds [of vms "\<lparr>embeddings = [], metadata = [], pickle_path = po\<rparr>" fs]
  obtain s' fs' where r: "run (map (\<lambda>(v, m). Add v m) vms)
               (\<lparr>embeddings = [], metadata = [], pickle_path = po\<rparr>, fs) = Inr (s', fs')"
    and e: "embeddings s' = map (\<lambda>(v, m). vec_div v (norm_vec v)) vms"
    by auto
  have "\<forall>e \<in> set (embeddings s'). norm_vec e = Fin 1"
    using assms by (auto simp: e normalized_unit_norm)
  with r e show ?thesis by blast
qed

lemma moderate_3_4: "moderate_vec [Fin 3, Fin 4]" "moderate_vec [Fin 0, Fin 2]"
  by (simp_all add: moderate_vec_def)

theorem stored_unit_norm_witness:
  "list_all (\<lambda>vm. moderate_vec (fst vm)) [([Fin 3, Fin 4], ''a''), ([Fin 0, Fin 2], ''b'')] \<and>
   (\<exists>s' fs'.
      run [Add [Fin 3, Fin 4] ''a'', Add [Fin 0, Fin 2] ''b'']
          (\<lparr>embeddings = [], metadata = [], pickle_path = None\<rparr>, Map.empty) = Inr (s', fs') \<and>
      embeddings s' = [[Fin (3 / 5), Fin (4 / 5)], [Fin 0, Fin 1]] \<and>
      (\<forall>e \<in> set (embeddings s'). norm_vec e = Fin 1))"
  using stored_unit_norm [of "[([Fin 3, Fin 4], ''a''), ([Fin 0, Fin 2], ''b'')]" None Map.empty]
  by (simp add: moderate_3_4 norm_vec_def vec_div_def in_range_moderate f_add_moderate)

text \<open>
  The claim itself fails on a nonzero vector whose squares overflow. The double
  \<open>2^600\<close> is finite, its square is not: the norm of \<open>[2^600, 0]\<close> is computed as
  \<open>inf\<close>, and \<open>add\<close> stores the zero vector, whose norm is 0.
\<close>

theorem large_vector_counterexample:
  "nonzero_vec [Fin (2 ^ 600), Fin 0] \<and>
   add \<lparr>embeddings = [], metadata = [], pickle_path = None\<rparr> Map.empty
      [Fin (2 ^ 600), Fin 0] ''meta''
   = (\<lparr>embeddings = [[Fin 0, Fin 0]], metadata = [''meta''], pickle_path = None\<rparr>, Map.empty) \<and>
   norm_vec [Fin 0, Fin 0] = Fin 0"
proof -
  have "in_range (2 ^ 600 * 2 ^ 600) = PInf"
    by (simp add: in_range_def overflow_threshold_def inf_of_def)
  then have "norm_vec [Fin (2 ^ 600), Fin 0] = PInf"
    by (simp add: norm_vec_def)
  then show ?thesis
    by (simp add: add_def vec_div_def nonzero_vec_def fin_vec_def norm_vec_def)
qed

text \<open>
  It fails as well on a nonzero vector whose squares underflow: the norm of
  \<open>[2^-600, 0]\<close> is computed as 0, and \<open>add\<close> stores \<open>[inf, NaN]\<close>.
\<close>

lemma add_tiny_vector:
  "add \<lparr>embeddings = [], metadata = [], pickle_path = None\<rparr> Map.empty
      [Fin (1 / 2 ^ 600), Fin 0] ''meta''
   = (\<lparr>embeddings = [[PInf, NaN]], metadata = [''meta''], pickle_path = None\<rparr>, Map.empty)"
proof -
  have "in_range (1 / 2 ^ 600 * (1 / 2 ^ 600)) = Fin 0"
    by (simp add: in_range_def overflow_threshold_def underflow_threshold_def)
  then have "norm_vec [Fin (1 / 2 ^ 600), Fin 0] = Fin 0"
    by (simp add: norm_vec_def)
  then show ?thesis
    by (simp add: add_def vec_div_def inf_of_def)
qed

section \<open>Search\<close>

lemma pairs_at_length: "pairs_at md sims is = Inr r \<Longrightarrow> length r = length is"
  by (induction "is" arbitrary: r) (auto split: if_splits sum.splits)

lemma pairs_at_in_range:
  "\<forall>i \<in> set is. i < length md \<and> i < length sims \<Longrightarrow>
     pairs_at md sims is = Inr (map (\<lambda>i. (md ! i, sims ! i)) is)"
  by (induction "is") simp_all

lemma length_argsort: "length (argsort a) = length a"
  by (simp add: argsort_def)

lemma set_argsort: "set (argsort a) = {..<length a}"
  by (auto simp: argsort_def)

lemma distinct_argsort: "distinct (argsort a)"
  by (simp add: argsort_def)

lemma sorted_argsort: "sorted_wrt (\<lambda>i j. rank (a ! i) \<le> rank (a ! j)) (argsort a)"
  using sorted_sort_key [of "\<lambda>i. rank (a ! i)" "[0..<length a]"]
  by (simp add: argsort_def sorted_wrt_map)

lemma slice_from_last: "1 \<le> k \<Longrightarrow> slice_from a (- k) = drop (length a - nat k) a"
  by (auto simp: slice_from_def Let_def max_def intro: arg_cong [where f = "\<lambda>n. drop n a"])

lemma slice_from_zero: "slice_from a 0 = a"
  by (simp add: slice_from_def)

lemma slice_from_beyond: "int (length a) < k \<Longrightarrow> slice_from a (- k) = a"
  by (simp add: slice_from_def Let_def)

lemma length_vec_div: "length (vec_div x n) = length x"
  by (simp add: vec_div_def)

lemma search_in_range:
  assumes "embeddings s \<noteq> []"
    and "length (metadata s) = length (embeddings s)"
    and "\<forall>e \<in> set (embeddings s). length e = length q"
  shows "search s q k =
           Inr (map (\<lambda>i. (metadata s ! i, score s q i))
                 (rev (slice_from (argsort (similarities (embeddings s) (vec_div q (norm_vec q)))) (- k))))"
proof -
  let ?sims = "similarities (embeddings s) (vec_div q (norm_vec q))"
  let ?is = "rev (slice_from (argsort ?sims) (- k))"
  have n: "length ?sims = length (embeddings s)" by (simp add: similarities_def)
  have "set (slice_from (argsort ?sims) (- k)) \<subseteq> set (argsort ?sims)"
    by (simp add: slice_from_def Let_def set_drop_subset)
  then have r: "\<forall>i \<in> set ?is. i < length (embeddings s)"
    using n by (auto simp: set_argsort)
  then have "pairs_at (metadata s) ?sims ?is = Inr (map (\<lambda>i. (metadata s ! i, ?sims ! i)) ?is)"
    using assms(2) n by (intro pairs_at_in_range) simp
  moreover have "map (\<lambda>i. (metadata s ! i, ?sims ! i)) ?is = map (\<lambda>i. (metadata s ! i, score s q i)) ?is"
    using r by (intro map_cong) (simp_all add: similarities_def score_def)
  ultimately show ?thesis
    using assms by (simp add: search_def Let_def list_all_iff length_vec_div)
qed

lemma sorted_argsort_rank:
  "sorted_wrt (\<lambda>i j. rank (score s q i) \<le> rank (score s q j))
     (argsort (similarities (embeddings s) (vec_div q (norm_vec q))))"
proof -
  let ?sims = "similarities (embeddings s) (vec_div q (norm_vec q))"
  have n: "length ?sims = length (embeddings s)" by (simp add: similarities_def)
  show ?thesis
  proof (rule sorted_wrt_mono_rel [OF _ sorted_argsort [of ?sims]])
    fix i j
    assume "i \<in> set (argsort ?sims)" "j \<in> set (argsort ?sims)"
      and r: "rank (?sims ! i) \<le> rank (?sims ! j)"
    then have "i < length (embeddings s)" "j < length (embeddings s)"
      using n by (simp_all add: set_argsort)
    with r show "rank (score s q i) \<le> rank (score s q j)"
      by (simp add: similarities_def score_def)
  qed
qed


lemma rank_le_iff: "a \<noteq> NaN \<Longrightarrow> b \<noteq> NaN \<Longrightarrow> rank a \<le> rank b \<longleftrightarrow> f_ge b a"
  by (cases a; cases b) (simp_all add: less_eq_prod_def)

lemma sorted_argsort_scores:
  assumes "\<forall>i < length (embeddings s). score s q i \<noteq> NaN"
  shows "sorted_wrt (\<lambda>i j. f_ge (score s q j) (score s q i))
           (argsort (similarities (embeddings s) (vec_div q (norm_vec q))))"
proof -
  let ?sims = "similarities (embeddings s) (vec_div q (norm_vec q))"
  have n: "length ?sims = length (embeddings s)" by (simp add: similarities_def)
  show ?thesis
  proof (rule sorted_wrt_mono_rel [OF _ sorted_argsort_rank [of s q]])
    fix i j
    assume "i \<in> set (argsort ?sims)" "j \<in> set (argsort ?sims)"
      and r: "rank (score s q i) \<le> rank (score s q j)"
    then have "i < length (embeddings s)" "j < length (embeddings s)"
      using n by (simp_all add: set_argsort)
    with assms have "score s q i \<noteq> NaN" "score s q j \<noteq> NaN" by simp_all
    with r show "f_ge (score s q j) (score s q i)" by (simp add: rank_le_iff)
  qed
qed

lemma pairs_at_Nil_iff: "pairs_at md sims is = Inr [] \<longleftrightarrow> is = []"
  by (cases "is") (auto split: sum.splits)

lemma slice_from_Nil_iff:
  assumes "a \<noteq> []"
  shows "slice_from a (- k) = [] \<longleftrightarrow> int (length a) \<le> - k"
proof -
  from assms have "0 < length a" by simp
  then show ?thesis
    by (auto simp: slice_from_def Let_def max_def min_def split: if_splits)
qed

lemma search_ranked:
  assumes ne: "embeddings s \<noteq> []"
    and len: "length (metadata s) = length (embeddings s)"
    and wf: "\<forall>e \<in> set (embeddings s). length e = length q"
    and nn: "\<forall>i < length (embeddings s). score s q i \<noteq> NaN"
    and k: "1 \<le> k" "k \<le> int (length (embeddings s))"
  shows "\<exists>is. search s q k = Inr (map (\<lambda>i. (metadata s ! i, score s q i)) is) \<and>
           length is = nat k \<and> distinct is \<and> set is \<subseteq> {..<length (embeddings s)} \<and>
           sorted_wrt (\<lambda>i j. f_ge (score s q i) (score s q j)) is \<and>
           (\<forall>j < length (embeddings s). j \<notin> set is \<longrightarrow>
              (\<forall>i \<in> set is. f_ge (score s q i) (score s q j)))"
proof -
  let ?n = "length (embeddings s)"
  let ?srt = "argsort (similarities (embeddings s) (vec_div q (norm_vec q)))"
  let ?low = "take (?n - nat k) ?srt"
  let ?top = "drop (?n - nat k) ?srt"
  have ln: "length ?srt = ?n" by (simp add: length_argsort similarities_def)
  have st: "set ?srt = {..<?n}" by (simp add: set_argsort similarities_def)
  have "sorted_wrt (\<lambda>i j. f_ge (score s q j) (score s q i)) (?low @ ?top)"
    using sorted_argsort_scores [OF nn] by simp
  then have srt: "sorted_wrt (\<lambda>i j. f_ge (score s q j) (score s q i)) ?top"
    and cross: "\<forall>j \<in> set ?low. \<forall>i \<in> set ?top. f_ge (score s q i) (score s q j)"
    unfolding sorted_wrt_append by blast+
  have res: "search s q k = Inr (map (\<lambda>i. (metadata s ! i, score s q i)) (rev ?top))"
    using search_in_range [OF ne len wf, of k] k by (simp add: slice_from_last ln)
  have l: "length (rev ?top) = nat k" using k ln by simp
  have d: "distinct (rev ?top)" by (simp add: distinct_argsort)
  have sub: "set (rev ?top) \<subseteq> {..<?n}" using st set_drop_subset [of "?n - nat k" ?srt] by simp
  have desc: "sorted_wrt (\<lambda>i j. f_ge (score s q i) (score s q j)) (rev ?top)"
    using srt by (simp add: sorted_wrt_rev)
  have rest: "\<forall>j < ?n. j \<notin> set (rev ?top) \<longrightarrow> (\<forall>i \<in> set (rev ?top). f_ge (score s q i) (score s q j))"
  proof (intro allI impI ballI)
    fix j i
    assume "j < ?n" "j \<notin> set (rev ?top)" "i \<in> set (rev ?top)"
    then have "j \<in> set ?srt" "j \<notin> set ?top" "i \<in> set ?top" using st by simp_all
    then have "j \<in> set ?low" using set_append [of ?low ?top] by auto
    with cross \<open>i \<in> set ?top\<close> show "f_ge (score s q i) (score s q j)"
      by blast
  qed
  from res l d sub desc rest show ?thesis by blast
qed

text \<open>
  No similarity is NaN when the query is of moderate size and the stored vectors consist
  of finite numbers of magnitude at most \<open>2^500\<close>, as the normalised vector that
  \<open>add\<close> stores for a vector of moderate size does (\<open>normalized_bounded\<close>).
\<close>

lemma bounded_vec_reals:
  "list_all bounded e \<Longrightarrow> \<exists>es. e = map Fin es \<and> (\<forall>r \<in> set es. \<bar>r\<bar> \<le> 2 ^ 500)"
proof (induction e)
  case Nil
  then show ?case by simp
next
  case (Cons a e)
  then obtain es where es: "e = map Fin es" "\<forall>r \<in> set es. \<bar>r\<bar> \<le> 2 ^ 500" by auto
  from Cons.prems obtain r where r: "a = Fin r" "\<bar>r\<bar> \<le> 2 ^ 500" by (cases a) auto
  from es r have "a # e = map Fin (r # es) \<and> (\<forall>r \<in> set (r # es). \<bar>r\<bar> \<le> 2 ^ 500)" by simp
  then show ?case by (rule exI)
qed

lemma score_fin_moderate:
  assumes q: "moderate_vec q" and e: "list_all bounded e" and len: "length e = length q"
  shows "is_fin (dot e (vec_div q (norm_vec q)))"
proof -
  from q obtain rs n where qv: "q = map Fin rs"
    and div: "vec_div q (norm_vec q) = map Fin (map (\<lambda>r. r / n) rs)"
    and q1: "\<forall>r \<in> set rs. \<bar>r / n\<bar> \<le> 1"
    by (rule normalize_moderate)
  from q qv have n20: "length rs \<le> 2 ^ 20" by (simp add: moderate_vec_def)
  from e obtain es where es: "e = map Fin es" "\<forall>r \<in> set es. \<bar>r\<bar> \<le> 2 ^ 500"
    using bounded_vec_reals by blast
  let ?qs = "map (\<lambda>r. r / n) rs"
  have l: "length es = length ?qs" using len es qv by simp
  have "\<forall>p \<in> set (zip es ?qs). (case p of (a, b) \<Rightarrow> \<bar>a * b\<bar>) \<le> 2 ^ 500"
  proof
    fix p assume p: "p \<in> set (zip es ?qs)"
    obtain a b where ab: "p = (a, b)" by (cases p)
    with p have "a \<in> set es" "b \<in> set ?qs" by (auto dest: set_zip_leftD set_zip_rightD)
    with es q1 have "\<bar>a\<bar> \<le> 2 ^ 500" "\<bar>b\<bar> \<le> 1" by auto
    then have "\<bar>a\<bar> * \<bar>b\<bar> \<le> 2 ^ 500 * 1" by (intro mult_mono) auto
    then show "(case p of (a, b) \<Rightarrow> \<bar>a * b\<bar>) \<le> 2 ^ 500" by (simp add: ab abs_mult)
  qed
  then have "(\<Sum>(a, b) \<leftarrow> zip es ?qs. \<bar>a * b\<bar>) \<le> real (length (zip es ?qs)) * 2 ^ 500"
    by (rule sum_list_bounded)
  also have "\<dots> \<le> 2 ^ 20 * 2 ^ 500"
  proof (rule mult_right_mono)
    from n20 l have "real (length (zip es ?qs)) \<le> real (2 ^ 20)" by (simp only: of_nat_le_iff) simp
    then show "real (length (zip es ?qs)) \<le> 2 ^ 20" by simp
  qed simp
  also have "\<dots> < 2 ^ 1023" by simp
  finally have "(\<Sum>(a, b) \<leftarrow> zip es ?qs. \<bar>a * b\<bar>) < overflow_threshold"
    using overflow_threshold_bounds(1) by linarith
  from dot_bounded [OF l this] obtain t where "dot (map Fin es) (map Fin ?qs) = Fin t" by blast
  then show ?thesis by (simp add: es div)
qed

lemma scores_not_nan_moderate:
  assumes "moderate_vec q"
    and "\<forall>e \<in> set (embeddings s). list_all bounded e \<and> length e = length q"
  shows "\<forall>i < length (embeddings s). score s q i \<noteq> NaN"
proof (intro allI impI)
  fix i assume "i < length (embeddings s)"
  with assms(2) have "list_all bounded (embeddings s ! i)" "length (embeddings s ! i) = length q"
    by simp_all
  from score_fin_moderate [OF assms(1) this] show "score s q i \<noteq> NaN"
    by (cases "score s q i") (simp_all add: score_def)
qed

subsection \<open>The stores of the examples\<close>

lemma ranking_norm_bounds: "9 / 10 < ranking_norm" "ranking_norm < 1"
proof -
  show "9 / 10 < ranking_norm"
    unfolding ranking_norm_def by (rule real_less_rsqrt) (simp add: power2_eq_square)
  show "ranking_norm < 1"
    unfolding ranking_norm_def by (rule real_less_lsqrt) simp_all
qed

lemma in_range_by_ranking_norm:
  assumes "1 / 100 \<le> a \<and> a \<le> 1"
  shows "in_range (a / ranking_norm) = Fin (a / ranking_norm)"
proof -
  from ranking_norm_bounds have n: "0 < ranking_norm" by linarith
  have "a \<le> 1000 * ranking_norm" using assms ranking_norm_bounds by linarith
  then have hi: "a / ranking_norm \<le> 1000" using n by (simp add: pos_divide_le_eq)
  have "1 / 1000 * ranking_norm \<le> a" using assms ranking_norm_bounds by linarith
  then have lo: "1 / 1000 \<le> a / ranking_norm" using n by (simp add: pos_le_divide_eq)
  from lo have "0 \<le> a / ranking_norm" by linarith
  then have e: "\<bar>a / ranking_norm\<bar> = a / ranking_norm" by (rule abs_of_nonneg)
  show ?thesis
    by (rule in_range_moderate) (simp_all only: e lo hi)
qed

lemma f_div_by_ranking_norm:
  assumes "a = 0 \<or> (1 / 100 \<le> a \<and> a \<le> 1)"
  shows "f_div (Fin a) (Fin ranking_norm) = Fin (a / ranking_norm)"
proof -
  from ranking_norm_bounds have n: "0 < ranking_norm" by linarith
  from assms show ?thesis
  proof
    assume "a = 0"
    with n show ?thesis by simp
  next
    assume "1 / 100 \<le> a \<and> a \<le> 1"
    from in_range_by_ranking_norm [OF this] n show ?thesis by simp
  qed
qed

lemma ranking_third:
  "vec_div [Fin (9 / 10), Fin (1 / 10), Fin 0] (norm_vec [Fin (9 / 10), Fin (1 / 10), Fin 0]) =
     [Fin (9 / 10 / ranking_norm), Fin (1 / 10 / ranking_norm), Fin 0]"
proof -
  have "norm_vec [Fin (9 / 10), Fin (1 / 10), Fin 0] = Fin ranking_norm"
    by (simp add: norm_vec_def in_range_moderate f_add_moderate ranking_norm_def)
  moreover have "f_div (Fin (9 / 10)) (Fin ranking_norm) = Fin (9 / 10 / ranking_norm)"
    by (rule f_div_by_ranking_norm) simp
  moreover have "f_div (Fin (1 / 10)) (Fin ranking_norm) = Fin (1 / 10 / ranking_norm)"
    by (rule f_div_by_ranking_norm) simp
  moreover have "f_div (Fin 0) (Fin ranking_norm) = Fin (0 / ranking_norm)"
    by (rule f_div_by_ranking_norm) simp
  ultimately show ?thesis by (simp add: vec_div_def)
qed

lemma unit_vectors:
  "vec_div [Fin 1, Fin 0, Fin 0] (norm_vec [Fin 1, Fin 0, Fin 0]) = [Fin 1, Fin 0, Fin 0]"
  "vec_div [Fin 0, Fin 1, Fin 0] (norm_vec [Fin 0, Fin 1, Fin 0]) = [Fin 0, Fin 1, Fin 0]"
  "vec_div [Fin 1, Fin 0] (norm_vec [Fin 1, Fin 0]) = [Fin 1, Fin 0]"
  "vec_div [Fin 1] (norm_vec [Fin 1]) = [Fin 1]"
  by (simp_all add: norm_vec_def vec_div_def in_range_moderate f_add_moderate)

lemma ranking_store_eq:
  "ranking_store =
     \<lparr>embeddings = [[Fin 1, Fin 0, Fin 0], [Fin 0, Fin 1, Fin 0],
                    [Fin (9 / 10 / ranking_norm), Fin (1 / 10 / ranking_norm), Fin 0]],
      metadata = [''A'', ''B'', ''C''], pickle_path = None\<rparr>"
  unfolding ranking_store_def add_def Let_def unit_vectors ranking_third
  by simp

lemma ranking_score_bounds: "0 < 9 / 10 / ranking_norm" "9 / 10 / ranking_norm < 1"
  using ranking_norm_bounds by (simp_all add: divide_less_eq)

lemma ranking_dots:
  "dot [Fin 1, Fin 0, Fin 0] [Fin 1, Fin 0, Fin 0] = Fin 1"
  "dot [Fin 0, Fin 1, Fin 0] [Fin 1, Fin 0, Fin 0] = Fin 0"
  "dot [Fin (9 / 10 / ranking_norm), Fin (1 / 10 / ranking_norm), Fin 0] [Fin 1, Fin 0, Fin 0]
     = Fin (9 / 10 / ranking_norm)"
proof -
  show "dot [Fin 1, Fin 0, Fin 0] [Fin 1, Fin 0, Fin 0] = Fin 1"
    "dot [Fin 0, Fin 1, Fin 0] [Fin 1, Fin 0, Fin 0] = Fin 0"
    by (simp_all add: in_range_moderate f_add_moderate)
  define c where "c = 9 / 10 / ranking_norm"
  define d where "d = 1 / 10 / ranking_norm"
  have c: "0 < c" "c < 1" using ranking_score_bounds by (simp_all add: c_def)
  have "in_range c = Fin c"
    unfolding c_def by (rule in_range_by_ranking_norm) simp
  moreover have "f_add (Fin c) (Fin 0) = Fin c"
    using c f_add_moderate [of c 0] by simp
  ultimately have "dot [Fin c, Fin d, Fin 0] [Fin 1, Fin 0, Fin 0] = Fin c"
    by simp
  then show "dot [Fin (9 / 10 / ranking_norm), Fin (1 / 10 / ranking_norm), Fin 0] [Fin 1, Fin 0, Fin 0]
     = Fin (9 / 10 / ranking_norm)"
    unfolding c_def d_def .
qed

lemma ranking_similarities:
  "similarities (embeddings ranking_store) [Fin 1, Fin 0, Fin 0] =
     [Fin 1, Fin 0, Fin (9 / 10 / ranking_norm)]"
  unfolding ranking_store_eq similarities_def
  by (simp only: store.simps list.map ranking_dots)

lemma ranking_scores:
  "score ranking_store [Fin 1, Fin 0, Fin 0] 0 = Fin 1"
  "score ranking_store [Fin 1, Fin 0, Fin 0] 1 = Fin 0"
  "score ranking_store [Fin 1, Fin 0, Fin 0] 2 = Fin (9 / 10 / ranking_norm)"
proof -
  have e: "embeddings ranking_store ! 0 = [Fin 1, Fin 0, Fin 0]"
    "embeddings ranking_store ! 1 = [Fin 0, Fin 1, Fin 0]"
    "embeddings ranking_store ! 2 = [Fin (9 / 10 / ranking_norm), Fin (1 / 10 / ranking_norm), Fin 0]"
    unfolding ranking_store_eq by simp_all
  show "score ranking_store [Fin 1, Fin 0, Fin 0] 0 = Fin 1"
    "score ranking_store [Fin 1, Fin 0, Fin 0] 1 = Fin 0"
    "score ranking_store [Fin 1, Fin 0, Fin 0] 2 = Fin (9 / 10 / ranking_norm)"
    unfolding score_def unit_vectors e by (rule ranking_dots)+
qed

lemma ranking_argsort:
  "argsort (similarities (embeddings ranking_store)
      (vec_div [Fin 1, Fin 0, Fin 0] (norm_vec [Fin 1, Fin 0, Fin 0]))) = [1, 2, 0]"
  unfolding unit_vectors ranking_similarities
  using ranking_score_bounds
  by (simp add: argsort_def upt_rec less_eq_prod_def)

lemma ranking_store_wf:
  "embeddings ranking_store \<noteq> []"
  "length (metadata ranking_store) = length (embeddings ranking_store)"
  "\<forall>e \<in> set (embeddings ranking_store). length e = length [Fin 1, Fin 0, Fin 0]"
  "length (embeddings ranking_store) = 3"
  by (simp_all add: ranking_store_eq)

lemma ranking_scores_not_nan:
  "\<forall>i < length (embeddings ranking_store). score ranking_store [Fin 1, Fin 0, Fin 0] i \<noteq> NaN"
proof (intro allI impI)
  fix i assume "i < length (embeddings ranking_store)"
  then have "i = 0 \<or> i = 1 \<or> i = 2" by (auto simp: ranking_store_wf(4))
  then show "score ranking_store [Fin 1, Fin 0, Fin 0] i \<noteq> NaN"
    using ranking_scores by auto
qed

lemma ranking_example:
  "search ranking_store [Fin 1, Fin 0, Fin 0] 2 =
     Inr [(''A'', score ranking_store [Fin 1, Fin 0, Fin 0] 0),
          (''C'', score ranking_store [Fin 1, Fin 0, Fin 0] 2)]"
proof -
  have sl: "slice_from [1, 2, 0 :: nat] (- 2) = [2, 0]"
    by (simp add: slice_from_def)
  have "search ranking_store [Fin 1, Fin 0, Fin 0] 2 =
      Inr (map (\<lambda>i. (metadata ranking_store ! i, score ranking_store [Fin 1, Fin 0, Fin 0] i))
        (rev (slice_from [1, 2, 0] (- 2))))"
    using search_in_range [OF ranking_store_wf(1) ranking_store_wf(2) ranking_store_wf(3), of 2]
    unfolding ranking_argsort .
  then show ?thesis
    unfolding sl by (simp add: ranking_store_eq)
qed

lemma nan_store_eq:
  "nan_store =
     \<lparr>embeddings = [[NaN, NaN], [Fin 1, Fin 0]], metadata = [''Z'', ''A''], pickle_path = None\<rparr>"
proof -
  have "vec_div [Fin 0, Fin 0] (norm_vec [Fin 0, Fin 0]) = [NaN, NaN]"
    by (simp add: norm_vec_def vec_div_def)
  then show ?thesis
    unfolding nan_store_def add_def Let_def unit_vectors by simp
qed

lemma nan_store_argsort:
  "argsort (similarities (embeddings nan_store)
     (vec_div [Fin 1, Fin 0] (norm_vec [Fin 1, Fin 0]))) = [1, 0]"
proof -
  have "similarities (embeddings nan_store) [Fin 1, Fin 0] = [NaN, Fin 1]"
    by (simp add: nan_store_eq similarities_def in_range_moderate f_add_moderate)
  moreover have "argsort [NaN, Fin 1] = [1, 0]"
    by (simp add: argsort_def upt_rec less_eq_prod_def)
  ultimately show ?thesis unfolding unit_vectors by simp
qed

lemma nan_store_scores:
  "score nan_store [Fin 1, Fin 0] 0 = NaN" "score nan_store [Fin 1, Fin 0] 1 = Fin 1"
  unfolding score_def unit_vectors
  by (simp_all add: nan_store_eq in_range_moderate f_add_moderate)

lemma nan_store_search:
  "search nan_store [Fin 1, Fin 0] k =
     Inr (map (\<lambda>i. (metadata nan_store ! i, score nan_store [Fin 1, Fin 0] i))
       (rev (slice_from [1, 0] (- k))))"
proof -
  have "embeddings nan_store \<noteq> []" "length (metadata nan_store) = length (embeddings nan_store)"
    "\<forall>e \<in> set (embeddings nan_store). length e = length [Fin 1, Fin 0]"
    by (simp_all add: nan_store_eq)
  from search_in_range [OF this, of k] show ?thesis
    unfolding nan_store_argsort .
qed

lemma nan_store_metadata: "metadata nan_store ! 0 = ''Z''" "metadata nan_store ! 1 = ''A''"
  by (simp_all add: nan_store_eq)

subsection \<open>The best matches\<close>

text \<open>
  Claim C2, as the code has it. Take a store with at least one entry whose two lists are
  parallel and whose stored vectors have the length of the query, and \<open>top_k\<close>
  between 1 and the number of entries. If none of the similarities is NaN, then
  \<open>search\<close> returns exactly \<open>top_k\<close> pairs, of distinct entries, each with its
  metadata and the dot product of its stored vector with the normalised query; the
  scores are in descending order, and no entry left out has a score above one that is
  returned. For the store of the ranking example, the query \<open>[1, 0, 0]\<close> with
  \<open>top_k = 2\<close> returns \<open>A\<close> and then \<open>C\<close>, each with its similarity, and not
  \<open>B\<close>.
\<close>

theorem search_returns_top_k:
  "(embeddings s \<noteq> [] \<and> length (metadata s) = length (embeddings s) \<and>
    (\<forall>e \<in> set (embeddings s). length e = length q) \<and>
    (\<forall>i < length (embeddings s). score s q i \<noteq> NaN) \<and>
    1 \<le> k \<and> k \<le> int (length (embeddings s)) \<longrightarrow>
      (\<exists>is. search s q k = Inr (map (\<lambda>i. (metadata s ! i, score s q i)) is) \<and>
         length is = nat k \<and> distinct is \<and> set is \<subseteq> {..<length (embeddings s)} \<and>
         sorted_wrt (\<lambda>i j. f_ge (score s q i) (score s q j)) is \<and>
         (\<forall>j < length (embeddings s). j \<notin> set is \<longrightarrow>
            (\<forall>i \<in> set is. f_ge (score s q i) (score s q j))))) \<and>
   search ranking_store [Fin 1, Fin 0, Fin 0] 2 =
     Inr [(''A'', score ranking_store [Fin 1, Fin 0, Fin 0] 0),
          (''C'', score ranking_store [Fin 1, Fin 0, Fin 0] 2)]"
  using search_ranked [of s q k] ranking_example by blast

theorem search_returns_top_k_witness:
  "embeddings ranking_store \<noteq> [] \<and>
   length (metadata ranking_store) = length (embeddings ranking_store) \<and>
   list_all (\<lambda>e. length e = length [Fin 1, Fin 0, Fin 0]) (embeddings ranking_store) \<and>
   score ranking_store [Fin 1, Fin 0, Fin 0] 0 = Fin 1 \<and>
   score ranking_store [Fin 1, Fin 0, Fin 0] 1 = Fin 0 \<and>
   score ranking_store [Fin 1, Fin 0, Fin 0] 2 = Fin (9 / 10 / ranking_norm) \<and>
   1 \<le> (2::int) \<and> 2 \<le> int (length (embeddings ranking_store)) \<and>
   (\<exists>is. search ranking_store [Fin 1, Fin 0, Fin 0] 2 =
            Inr (map (\<lambda>i. (metadata ranking_store ! i, score ranking_store [Fin 1, Fin 0, Fin 0] i)) is) \<and>
          length is = nat 2 \<and> distinct is \<and> set is \<subseteq> {..<length (embeddings ranking_store)} \<and>
          sorted_wrt (\<lambda>i j. f_ge (score ranking_store [Fin 1, Fin 0, Fin 0] i)
                                (score ranking_store [Fin 1, Fin 0, Fin 0] j)) is \<and>
          (\<forall>j < length (embeddings ranking_store). j \<notin> set is \<longrightarrow>
             (\<forall>i \<in> set is. f_ge (score ranking_store [Fin 1, Fin 0, Fin 0] i)
                                   (score ranking_store [Fin 1, Fin 0, Fin 0] j))))"
proof -
  have k: "1 \<le> (2::int)" "2 \<le> int (length (embeddings ranking_store))"
    by (simp_all add: ranking_store_wf(4))
  have h: "embeddings ranking_store \<noteq> [] \<and>
    length (metadata ranking_store) = length (embeddings ranking_store) \<and>
    (\<forall>e \<in> set (embeddings ranking_store). length e = length [Fin 1, Fin 0, Fin 0]) \<and>
    (\<forall>i < length (embeddings ranking_store). score ranking_store [Fin 1, Fin 0, Fin 0] i \<noteq> NaN) \<and>
    1 \<le> (2::int) \<and> 2 \<le> int (length (embeddings ranking_store))"
    using ranking_store_wf(1) ranking_store_wf(2) ranking_store_wf(3) ranking_scores_not_nan k
    by (intro conjI)
  have l: "list_all (\<lambda>e. length e = length [Fin 1, Fin 0, Fin 0]) (embeddings ranking_store)"
    using ranking_store_wf(3) by (simp only: list_all_iff)
  from search_returns_top_k [of ranking_store "[Fin 1, Fin 0, Fin 0]" 2, THEN conjunct1, THEN mp, OF h]
    ranking_store_wf(1) ranking_store_wf(2) l ranking_scores k
  show ?thesis by (intro conjI)
qed

text \<open>
  The claim itself fails on a store that holds the zero vector. After \<open>add\<close> of
  \<open>[0, 0]\<close> and of \<open>[1, 0]\<close>, the query \<open>[1, 0]\<close> with \<open>top_k = 1\<close>
  returns the entry of the zero vector with the score NaN, and not the entry equal to the
  query, whose similarity is 1: numpy sorts NaN after every number.
\<close>

theorem search_nan_first_counterexample:
  "length (embeddings nan_store) = 2 \<and> nonzero_vec [Fin 1, Fin 0] \<and>
   search nan_store [Fin 1, Fin 0] 1 = Inr [(''Z'', NaN)] \<and>
   score nan_store [Fin 1, Fin 0] 1 = Fin 1 \<and> \<not> f_ge NaN (Fin 1)"
proof (intro conjI)
  show "length (embeddings nan_store) = 2" by (simp add: nan_store_eq)
  show "nonzero_vec [Fin 1, Fin 0]" by (simp add: nonzero_vec_def fin_vec_def)
  have "slice_from [1, 0 :: nat] (- 1) = [0]" by (simp add: slice_from_def)
  then show "search nan_store [Fin 1, Fin 0] 1 = Inr [(''Z'', NaN)]"
    unfolding nan_store_search
    by (simp only: rev.simps append.simps list.map nan_store_metadata nan_store_scores)
  show "score nan_store [Fin 1, Fin 0] 1 = Fin 1" by (rule nan_store_scores)
  show "\<not> f_ge NaN (Fin 1)" by simp
qed

subsection \<open>The empty store\<close>

text \<open>
  Claim C7, as the code has it. On a store without entries \<open>search\<close> returns the
  empty list, without an error, for every query and every \<open>top_k\<close>. It is not the
  only case of an empty result: on a store with \<open>n \<ge> 1\<close> entries \<open>search\<close> returns
  the empty list exactly when the stored vectors have the length of the query and
  \<open>top_k \<le> -n\<close>, since the slice \<open>[-top_k:]\<close> then starts behind the last index.
  For every other \<open>top_k\<close>, so for every \<open>top_k \<ge> 1\<close>, an empty result means an
  empty store.
\<close>

theorem search_empty_result:
  "search s q k = Inr [] \<longleftrightarrow>
     embeddings s = [] \<or>
     ((\<forall>e \<in> set (embeddings s). length e = length q) \<and> int (length (embeddings s)) \<le> - k)"
proof (cases "embeddings s = []")
  case True
  then show ?thesis by (simp add: search_def)
next
  case ne: False
  let ?srt = "argsort (similarities (embeddings s) (vec_div q (norm_vec q)))"
  have l: "length ?srt = length (embeddings s)"
    by (simp add: length_argsort similarities_def)
  with ne have s: "?srt \<noteq> []" by auto
  show ?thesis
  proof (cases "\<forall>e \<in> set (embeddings s). length e = length q")
    case True
    with ne have "search s q k =
        pairs_at (metadata s) (similarities (embeddings s) (vec_div q (norm_vec q)))
          (rev (slice_from ?srt (- k)))"
      by (simp add: search_def Let_def list_all_iff length_vec_div)
    then have "search s q k = Inr [] \<longleftrightarrow> slice_from ?srt (- k) = []"
      by (simp add: pairs_at_Nil_iff)
    with ne True show ?thesis
      by (simp add: slice_from_Nil_iff [OF s] l)
  next
    case False
    with ne show ?thesis
      by (simp add: search_def Let_def list_all_iff length_vec_div)
  qed
qed

theorem search_empty_result_witness:
  "embeddings \<lparr>embeddings = [], metadata = ([] :: string list), pickle_path = None\<rparr> = [] \<and>
   search \<lparr>embeddings = [], metadata = ([] :: string list), pickle_path = None\<rparr> [Fin 1, Fin 0] 5 = Inr []"
  using search_empty_result [of "\<lparr>embeddings = [], metadata = ([] :: string list), pickle_path = None\<rparr>" "[Fin 1, Fin 0]" 5]
  by simp

text \<open>
  The claim itself fails for a negative \<open>top_k\<close>: on a store of one entry, a search
  with \<open>top_k = -1\<close> returns the empty list and no error.
\<close>

theorem negative_top_k_counterexample:
  "embeddings \<lparr>embeddings = [[Fin 1]], metadata = [''A''], pickle_path = None\<rparr> \<noteq> [] \<and>
   search \<lparr>embeddings = [[Fin 1]], metadata = [''A''], pickle_path = None\<rparr> [Fin 1] (- 1) = Inr []"
  by (simp add: search_def Let_def similarities_def argsort_def slice_from_def unit_vectors)

subsection \<open>More results requested than stored\<close>

text \<open>
  Claim C8. On a store with \<open>n \<ge> 1\<close> entries, parallel lists and stored vectors of
  the length of the query, \<open>search\<close> with \<open>top_k > n\<close> returns without an error
  exactly \<open>n\<close> pairs, one for each stored entry.
\<close>

theorem search_clamps:
  assumes ne: "embeddings s \<noteq> []"
    and len: "length (metadata s) = length (embeddings s)"
    and wf: "\<forall>e \<in> set (embeddings s). length e = length q"
    and k: "int (length (embeddings s)) < k"
  shows "\<exists>is. search s q k = Inr (map (\<lambda>i. (metadata s ! i, score s q i)) is) \<and>
           length is = length (embeddings s) \<and> distinct is \<and>
           set is = {..<length (embeddings s)}"
proof -
  let ?srt = "argsort (similarities (embeddings s) (vec_div q (norm_vec q)))"
  have "int (length ?srt) < k" using k by (simp add: length_argsort similarities_def)
  then have "search s q k = Inr (map (\<lambda>i. (metadata s ! i, score s q i)) (rev ?srt))"
    using search_in_range [OF ne len wf, of k] by (simp add: slice_from_beyond)
  moreover have "length (rev ?srt) = length (embeddings s)"
    by (simp add: length_argsort similarities_def)
  moreover have "distinct (rev ?srt)" by (simp add: distinct_argsort)
  moreover have "set (rev ?srt) = {..<length (embeddings s)}"
    by (simp add: set_argsort similarities_def)
  ultimately show ?thesis by blast
qed

theorem search_clamps_witness:
  "embeddings ranking_store \<noteq> [] \<and>
   length (metadata ranking_store) = length (embeddings ranking_store) \<and>
   list_all (\<lambda>e. length e = length [Fin 1, Fin 0, Fin 0]) (embeddings ranking_store) \<and>
   int (length (embeddings ranking_store)) < 100 \<and>
   (\<exists>is. search ranking_store [Fin 1, Fin 0, Fin 0] 100 =
            Inr (map (\<lambda>i. (metadata ranking_store ! i, score ranking_store [Fin 1, Fin 0, Fin 0] i)) is) \<and>
          length is = length (embeddings ranking_store) \<and> distinct is \<and>
          set is = {..<length (embeddings ranking_store)})"
proof -
  have k: "int (length (embeddings ranking_store)) < 100"
    by (simp add: ranking_store_wf(4))
  have l: "list_all (\<lambda>e. length e = length [Fin 1, Fin 0, Fin 0]) (embeddings ranking_store)"
    using ranking_store_wf(3) by (simp only: list_all_iff)
  from search_clamps [OF ranking_store_wf(1) ranking_store_wf(2) ranking_store_wf(3) k]
    ranking_store_wf(1) ranking_store_wf(2) l k
  show ?thesis by (intro conjI)
qed

subsection \<open>No result requested\<close>

text \<open>
  Claim C10, as the code has it. On a store with \<open>n \<ge> 1\<close> entries, parallel lists
  and stored vectors of the length of the query, \<open>search\<close> with \<open>top_k = 0\<close>
  returns all \<open>n\<close> entries and not the empty list, because the slice \<open>[-0:]\<close> is
  the whole array. They come in the reverse of the order \<open>argsort\<close> gives them, which
  is descending similarity whenever none of the similarities is NaN.
\<close>

theorem search_zero_returns_all:
  assumes ne: "embeddings s \<noteq> []"
    and len: "length (metadata s) = length (embeddings s)"
    and wf: "\<forall>e \<in> set (embeddings s). length e = length q"
  shows "\<exists>is. search s q 0 = Inr (map (\<lambda>i. (metadata s ! i, score s q i)) is) \<and>
           length is = length (embeddings s) \<and> distinct is \<and>
           set is = {..<length (embeddings s)} \<and>
           sorted_wrt (\<lambda>i j. rank (score s q j) \<le> rank (score s q i)) is \<and>
           ((\<forall>i < length (embeddings s). score s q i \<noteq> NaN) \<longrightarrow>
              sorted_wrt (\<lambda>i j. f_ge (score s q i) (score s q j)) is)"
proof -
  let ?srt = "argsort (similarities (embeddings s) (vec_div q (norm_vec q)))"
  have "search s q 0 = Inr (map (\<lambda>i. (metadata s ! i, score s q i)) (rev ?srt))"
    using search_in_range [OF ne len wf, of 0] by (simp add: slice_from_zero)
  moreover have "length (rev ?srt) = length (embeddings s)"
    by (simp add: length_argsort similarities_def)
  moreover have "distinct (rev ?srt)" by (simp add: distinct_argsort)
  moreover have "set (rev ?srt) = {..<length (embeddings s)}"
    by (simp add: set_argsort similarities_def)
  moreover have "sorted_wrt (\<lambda>i j. rank (score s q j) \<le> rank (score s q i)) (rev ?srt)"
    using sorted_argsort_rank [of s q] by (simp add: sorted_wrt_rev)
  moreover have "(\<forall>i < length (embeddings s). score s q i \<noteq> NaN) \<longrightarrow>
      sorted_wrt (\<lambda>i j. f_ge (score s q i) (score s q j)) (rev ?srt)"
  proof
    assume "\<forall>i < length (embeddings s). score s q i \<noteq> NaN"
    from sorted_argsort_scores [OF this] show
      "sorted_wrt (\<lambda>i j. f_ge (score s q i) (score s q j)) (rev ?srt)"
      by (simp add: sorted_wrt_rev)
  qed
  ultimately show ?thesis by blast
qed

theorem search_zero_returns_all_witness:
  "embeddings ranking_store \<noteq> [] \<and>
   length (metadata ranking_store) = length (embeddings ranking_store) \<and>
   list_all (\<lambda>e. length e = length [Fin 1, Fin 0, Fin 0]) (embeddings ranking_store) \<and>
   score ranking_store [Fin 1, Fin 0, Fin 0] 0 = Fin 1 \<and>
   score ranking_store [Fin 1, Fin 0, Fin 0] 1 = Fin 0 \<and>
   score ranking_store [Fin 1, Fin 0, Fin 0] 2 = Fin (9 / 10 / ranking_norm) \<and>
   (\<exists>is. search ranking_store [Fin 1, Fin 0, Fin 0] 0 =
            Inr (map (\<lambda>i. (metadata ranking_store ! i, score ranking_store [Fin 1, Fin 0, Fin 0] i)) is) \<and>
          length is = length (embeddings ranking_store) \<and>
          sorted_wrt (\<lambda>i j. f_ge (score ranking_store [Fin 1, Fin 0, Fin 0] i)
                                (score ranking_store [Fin 1, Fin 0, Fin 0] j)) is)"
proof -
  have l: "list_all (\<lambda>e. length e = length [Fin 1, Fin 0, Fin 0]) (embeddings ranking_store)"
    using ranking_store_wf(3) by (simp only: list_all_iff)
  from search_zero_returns_all [OF ranking_store_wf(1) ranking_store_wf(2) ranking_store_wf(3)]
    ranking_scores_not_nan
  have "\<exists>is. search ranking_store [Fin 1, Fin 0, Fin 0] 0 =
            Inr (map (\<lambda>i. (metadata ranking_store ! i, score ranking_store [Fin 1, Fin 0, Fin 0] i)) is) \<and>
          length is = length (embeddings ranking_store) \<and>
          sorted_wrt (\<lambda>i j. f_ge (score ranking_store [Fin 1, Fin 0, Fin 0] i)
                                (score ranking_store [Fin 1, Fin 0, Fin 0] j)) is"
    by blast
  with ranking_store_wf(1) ranking_store_wf(2) l ranking_scores
  show ?thesis by (intro conjI)
qed

text \<open>
  The claim itself fails on the store that holds the zero vector: \<open>top_k = 0\<close>
  returns both entries, but the score NaN comes first, before the score 1, so the scores
  are not in descending order.
\<close>

theorem search_zero_nan_counterexample:
  "length (embeddings nan_store) = 2 \<and> nonzero_vec [Fin 1, Fin 0] \<and>
   search nan_store [Fin 1, Fin 0] 0 = Inr [(''Z'', NaN), (''A'', Fin 1)] \<and>
   \<not> f_ge NaN (Fin 1)"
proof (intro conjI)
  show "length (embeddings nan_store) = 2" by (simp add: nan_store_eq)
  show "nonzero_vec [Fin 1, Fin 0]" by (simp add: nonzero_vec_def fin_vec_def)
  have "slice_from [1, 0 :: nat] (- 0) = [1, 0]" by (simp add: slice_from_def)
  then show "search nan_store [Fin 1, Fin 0] 0 = Inr [(''Z'', NaN), (''A'', Fin 1)]"
    unfolding nan_store_search
    by (simp only: rev.simps append.simps list.map nan_store_metadata nan_store_scores)
  show "\<not> f_ge NaN (Fin 1)" by simp
qed

section \<open>Rejection of empty input\<close>







end
